theory Spec2Isabelle
  imports
    Main
    "HOL-Library.Product_Lexorder"
    "HOL-Library.Char_ord"
    "HOL-Library.List_Lexorder"
    "HOL-Library.Sublist"
    "HOL-Library.Multiset"
begin

section \<open>Errors\<close>

text \<open>
  The script \<^verbatim>\<open>snp2mutant_coords.py\<close> raises Python exceptions. Each raise site of
  the source is one constructor:
  \<^item> \<open>CodonNotFoundError\<close>: the \<^verbatim>\<open>ValueError\<close> of \<^verbatim>\<open>aa_to_genomic_from_exons\<close>;
  \<^item> \<open>SequenceNotFoundError\<close>: the \<^verbatim>\<open>ValueError\<close> at the end of \<^verbatim>\<open>sequence_for_pos\<close>;
  \<^item> \<open>InconsistentGeneModelError\<close>: the \<^verbatim>\<open>ValueError\<close> of \<^verbatim>\<open>find_cds_for_gene\<close>;
  \<^item> \<open>IntParseError\<close>: the \<^verbatim>\<open>ValueError\<close> of \<^verbatim>\<open>int(start_s)\<close> and \<^verbatim>\<open>int(end_s)\<close>;
  \<^item> \<open>UnpackError\<close>: the \<^verbatim>\<open>ValueError\<close> of unpacking more than nine columns;
  \<^item> \<open>NoneSubscriptError\<close>: the \<^verbatim>\<open>TypeError\<close> of \<^verbatim>\<open>re.match(...)[1]\<close> when the
    pattern does not match.
\<close>

datatype error =
    CodonNotFoundError
  | SequenceNotFoundError
  | InconsistentGeneModelError
  | IntParseError
  | UnpackError
  | NoneSubscriptError

section \<open>The codon coordinate mapper: \<^verbatim>\<open>aa_to_genomic_from_exons\<close>\<close>

text \<open>
  Python integers are unbounded, so coordinates are \<^typ>\<open>int\<close>. An exon is the pair
  \<open>(start, end)\<close> of the source; the strand is the integer the source compares with 1.
\<close>

type_synonym exon = "int \<times> int"

text \<open>
  The body of the \<^verbatim>\<open>for start,end in exons\<close> loop for one exon: the genomic range of
  the overlap of the exon's CDS-relative span with the codon's, if there is one.
\<close>

definition exon_overlap :: "int \<Rightarrow> int \<Rightarrow> int \<Rightarrow> int \<Rightarrow> exon \<Rightarrow> (int \<times> int) option" where
  "exon_overlap codon_start_cds codon_end_cds strand running ex =
     (let exon_start = fst ex;
          exon_end = snd ex;
          exon_len = exon_end - exon_start + 1;
          exon_cds_start = running + 1;
          exon_cds_end = running + exon_len;
          overlap_start = max exon_cds_start codon_start_cds;
          overlap_end = min exon_cds_end codon_end_cds
      in if overlap_start \<le> overlap_end then
           (let offset_start = overlap_start - exon_cds_start;
                offset_end = overlap_end - exon_cds_start
            in if strand = 1 then Some (exon_start + offset_start, exon_start + offset_end)
               else (let g_s = exon_end - offset_start;
                         g_e = exon_end - offset_end
                     in Some (min g_s g_e, max g_s g_e)))
         else None)"

text \<open>
  The loop itself, with its two mutable variables \<^verbatim>\<open>running\<close> and \<^verbatim>\<open>g_positions\<close>
  passed as state.
\<close>

fun exons_loop :: "int \<Rightarrow> int \<Rightarrow> int \<Rightarrow> int \<Rightarrow> (int \<times> int) list \<Rightarrow> exon list \<Rightarrow> (int \<times> int) list" where
  "exons_loop cs ce strand running g_positions [] = g_positions"
| "exons_loop cs ce strand running g_positions (ex # rest) =
     exons_loop cs ce strand (running + (snd ex - fst ex + 1))
       (case exon_overlap cs ce strand running ex of
          Some g \<Rightarrow> g_positions @ [g]
        | None \<Rightarrow> g_positions)
       rest"

text \<open>
  The merge loop over \<^verbatim>\<open>g_positions[1:]\<close>: a range that starts at most one past the
  merged end extends it; any other range takes the \<^verbatim>\<open>else: pass\<close> branch.
\<close>

fun merge_loop :: "int \<Rightarrow> int \<Rightarrow> (int \<times> int) list \<Rightarrow> int \<times> int" where
  "merge_loop merged_start merged_end [] = (merged_start, merged_end)"
| "merge_loop merged_start merged_end (g # rest) =
     (if fst g \<le> merged_end + 1
      then merge_loop merged_start (max merged_end (snd g)) rest
      else merge_loop merged_start merged_end rest)"

text \<open>
  The fragments the loop collects for an amino-acid position, before sorting.
\<close>

definition codon_fragments :: "exon list \<Rightarrow> int \<Rightarrow> int \<Rightarrow> (int \<times> int) list" where
  "codon_fragments exons aa_pos strand =
     (let codon_start_cds = (aa_pos - 1) * 3 + 1;
          codon_end_cds = codon_start_cds + 2
      in exons_loop codon_start_cds codon_end_cds strand 0 [] exons)"

text \<open>
  \<^verbatim>\<open>g_positions.sort()\<close> sorts pairs of integers lexicographically; \<^const>\<open>sort\<close> on
  the lexicographic product order is the same list, since pairs that compare equal are
  equal.
\<close>

definition aa_to_genomic_from_exons :: "exon list \<Rightarrow> int \<Rightarrow> int \<Rightarrow> error + (int \<times> int)" where
  "aa_to_genomic_from_exons exons aa_pos strand =
     (let g_positions = codon_fragments exons aa_pos strand
      in if g_positions = [] then Inl CodonNotFoundError
         else (let sorted_positions = sort g_positions
               in Inr (merge_loop (fst (hd sorted_positions)) (snd (hd sorted_positions))
                               (tl sorted_positions))))"

text \<open>
  The CDS-relative span \<open>(exon_cds_start, exon_cds_end)\<close> the loop computes for each
  exon, in loop order, starting from a given value of \<^verbatim>\<open>running\<close>.
\<close>

fun exon_cds_spans :: "int \<Rightarrow> exon list \<Rightarrow> (int \<times> int) list" where
  "exon_cds_spans running [] = []"
| "exon_cds_spans running (ex # rest) =
     (running + 1, running + (snd ex - fst ex + 1))
       # exon_cds_spans (running + (snd ex - fst ex + 1)) rest"

text \<open>
  Vocabulary for the properties below. An exon list is valid when every exon has
  \<open>start \<le> end\<close> (the data model's invariant of a CDS segment); the CDS length is the
  sum of the exon lengths; the codon of amino-acid position \<open>aa_pos\<close> spans the
  CDS-relative positions \<open>(aa_pos - 1) * 3 + 1\<close> to \<open>(aa_pos - 1) * 3 + 3\<close>.
\<close>

definition valid_exons :: "exon list \<Rightarrow> bool" where
  "valid_exons exons = list_all (\<lambda>ex. fst ex \<le> snd ex) exons"

definition cds_length :: "exon list \<Rightarrow> int" where
  "cds_length exons = sum_list (map (\<lambda>ex. snd ex - fst ex + 1) exons)"

definition codon_cds_span :: "int \<Rightarrow> int \<times> int" where
  "codon_cds_span aa_pos = ((aa_pos - 1) * 3 + 1, (aa_pos - 1) * 3 + 3)"

definition spans_overlap :: "int \<times> int \<Rightarrow> int \<times> int \<Rightarrow> bool" where
  "spans_overlap sp cp = (max (fst sp) (fst cp) \<le> min (snd sp) (snd cp))"

definition span_within :: "int \<times> int \<Rightarrow> int \<times> int \<Rightarrow> bool" where
  "span_within cp sp = (fst sp \<le> fst cp \<and> snd cp \<le> snd sp)"

definition range_len :: "int \<times> int \<Rightarrow> int" where
  "range_len g = snd g - fst g + 1"

text \<open>
  The merge loop described without the loop: a list of ranges is chained from a merged
  end when each range in turn starts at most one past the largest end seen so far.
\<close>

fun chained :: "int \<Rightarrow> (int \<times> int) list \<Rightarrow> bool" where
  "chained merged_end [] = True"
| "chained merged_end (g # rest) =
     (fst g \<le> merged_end + 1 \<and> chained (max merged_end (snd g)) rest)"

text \<open>
  The genomic position of a CDS-relative position, in the words of the specification:
  walking the exons in transcript order, the position lies in the exon whose
  CDS-relative span contains it, at \<open>exon_start + offset\<close> on strand +1 and at
  \<open>exon_end - offset\<close> on the other strand.
\<close>

fun genomic_of_cds_position :: "int \<Rightarrow> int \<Rightarrow> exon list \<Rightarrow> int \<Rightarrow> int option" where
  "genomic_of_cds_position strand running [] pos = None"
| "genomic_of_cds_position strand running (ex # rest) pos =
     (if running + 1 \<le> pos \<and> pos \<le> running + (snd ex - fst ex + 1)
      then Some (if strand = 1 then fst ex + (pos - (running + 1))
                 else snd ex - (pos - (running + 1)))
      else genomic_of_cds_position strand (running + (snd ex - fst ex + 1)) rest pos)"

section \<open>Strings\<close>

text \<open>
  A Python string is modelled as a \<^typ>\<open>string\<close>, a list of 8-bit characters, and the
  files the script reads as ASCII text. \<^verbatim>\<open>str.strip()\<close> removes the characters
  for which \<^verbatim>\<open>str.isspace()\<close> holds from both ends; among the ASCII characters
  these are the ten below (tab, line feed, vertical tab, form feed, carriage return,
  the four separators 0x1C to 0x1F and the space). The class \<^verbatim>\<open>\s\<close> of the \<^verbatim>\<open>re\<close>
  module is the same set.
\<close>

definition whitespace :: "char list" where
  "whitespace = [CHR 0x09, CHR 0x0A, CHR 0x0B, CHR 0x0C, CHR 0x0D,
                 CHR 0x1C, CHR 0x1D, CHR 0x1E, CHR 0x1F, CHR 0x20]"

definition is_space :: "char \<Rightarrow> bool" where
  "is_space c = (c \<in> set whitespace)"

definition strip :: "string \<Rightarrow> string" where
  "strip s = rev (dropWhile is_space (rev (dropWhile is_space s)))"

text \<open>\<^verbatim>\<open>s.startswith(p)\<close>, with the string first and the prefix second.\<close>

fun startswith :: "string \<Rightarrow> string \<Rightarrow> bool" where
  "startswith s [] = True"
| "startswith [] (p # ps) = False"
| "startswith (c # cs) (p # ps) = (c = p \<and> startswith cs ps)"

text \<open>
  \<^verbatim>\<open>str.upper()\<close> and \<^verbatim>\<open>str.lower()\<close> on ASCII text: the 26 letters change case and
  every other character stays as it is.
\<close>

definition ascii_lowercase :: string where
  "ascii_lowercase = ''abcdefghijklmnopqrstuvwxyz''"

definition ascii_uppercase :: string where
  "ascii_uppercase = ''ABCDEFGHIJKLMNOPQRSTUVWXYZ''"

definition upper_char :: "char \<Rightarrow> char" where
  "upper_char c = (case map_of (zip ascii_lowercase ascii_uppercase) c of None \<Rightarrow> c | Some u \<Rightarrow> u)"


definition upper :: "string \<Rightarrow> string" where
  "upper s = map upper_char s"



section \<open>The reference sequence extractor: \<^verbatim>\<open>sequence_for_pos\<close>\<close>

text \<open>
  \<^verbatim>\<open>_revcom\<close> (an Isabelle name cannot start with an underscore): the sequence is
  upper-cased, reversed, and each base replaced by \<^verbatim>\<open>complement.get(base, base)\<close>.
\<close>

definition complement :: "char \<Rightarrow> char" where
  "complement base =
     (if base = CHR ''A'' then CHR ''T''
      else if base = CHR ''C'' then CHR ''G''
      else if base = CHR ''G'' then CHR ''C''
      else if base = CHR ''T'' then CHR ''A''
      else base)"

definition revcom :: "string \<Rightarrow> string" where
  "revcom seq = map complement (rev (upper seq))"












section \<open>The gene model locator: \<^verbatim>\<open>find_cds_for_gene\<close>\<close>

subsection \<open>String operations of the locator\<close>

text \<open>\<^verbatim>\<open>q in s\<close> for two strings: \<open>q\<close> occurs in \<open>s\<close> as a contiguous substring.\<close>

fun py_in :: "string \<Rightarrow> string \<Rightarrow> bool" where
  "py_in q [] = (q = [])"
| "py_in q (c # cs) = (startswith (c # cs) q \<or> py_in q cs)"

text \<open>
  \<^verbatim>\<open>s.split(sep)\<close> for a separator of one character (the result has at least one
  element), \<^verbatim>\<open>s.split(sep, 1)\<close> for a string that contains the separator, as the pair
  of its two parts, and \<^verbatim>\<open>line.rstrip("\n")\<close>.
\<close>

fun split_char :: "char \<Rightarrow> string \<Rightarrow> string list" where
  "split_char sep [] = [[]]"
| "split_char sep (c # cs) =
     (if c = sep then [] # split_char sep cs
      else (case split_char sep cs of
              [] \<Rightarrow> [[c]]
            | w # ws \<Rightarrow> (c # w) # ws))"

definition split_first :: "char \<Rightarrow> string \<Rightarrow> string \<times> string" where
  "split_first sep s = (takeWhile (\<lambda>c. c \<noteq> sep) s, drop 1 (dropWhile (\<lambda>c. c \<noteq> sep) s))"

definition rstrip_newline :: "string \<Rightarrow> string" where
  "rstrip_newline s = rev (dropWhile (\<lambda>c. c = CHR 0x0A) (rev s))"

text \<open>
  \<^verbatim>\<open>int(s)\<close> on ASCII text, base 10: surrounding whitespace is ignored, one sign is
  allowed, and the digits may be grouped by single underscores. Any other string raises
  \<^verbatim>\<open>ValueError\<close>, here \<open>None\<close>. The whitespace \<^verbatim>\<open>int\<close> skips in an ASCII string
  is smaller than that of \<^verbatim>\<open>str.strip()\<close>: tab, line feed, vertical tab, form feed,
  carriage return and space, but not the separators 0x1C to 0x1F. A string with more
  digit characters than the interpreter's default limit
  (\<^verbatim>\<open>sys.int_info.default_max_str_digits\<close>, 4300) raises \<^verbatim>\<open>ValueError\<close> as well;
  sign, underscores and whitespace do not count, leading zeros do.
\<close>

definition int_whitespace :: "char list" where
  "int_whitespace = [CHR 0x09, CHR 0x0A, CHR 0x0B, CHR 0x0C, CHR 0x0D, CHR 0x20]"

definition int_strip :: "string \<Rightarrow> string" where
  "int_strip s =
     rev (dropWhile (\<lambda>c. c \<in> set int_whitespace)
            (rev (dropWhile (\<lambda>c. c \<in> set int_whitespace) s)))"

definition max_str_digits :: nat where
  "max_str_digits = 4300"

definition is_digit :: "char \<Rightarrow> bool" where
  "is_digit c = (c \<in> set ''0123456789'')"

definition digit_value :: "char \<Rightarrow> int" where
  "digit_value c =
     (case map_of (zip ''0123456789'' [0, 1, 2, 3, 4, 5, 6, 7, 8, 9]) c of
        None \<Rightarrow> 0
      | Some v \<Rightarrow> v)"

fun valid_digits :: "string \<Rightarrow> bool" where
  "valid_digits [] = False"
| "valid_digits [c] = is_digit c"
| "valid_digits (c # d # rest) =
     (is_digit c \<and> (if d = CHR ''_'' then valid_digits rest else valid_digits (d # rest)))"

fun digits_value :: "int \<Rightarrow> string \<Rightarrow> int" where
  "digits_value acc [] = acc"
| "digits_value acc (c # cs) =
     digits_value (if c = CHR ''_'' then acc else 10 * acc + digit_value c) cs"

definition py_int :: "string \<Rightarrow> int option" where
  "py_int s =
     (let t = int_strip s;
          signed = (startswith t ''-'' \<or> startswith t ''+'');
          body = (if signed then tl t else t)
      in if valid_digits body \<and> length (filter is_digit body) \<le> max_str_digits
         then Some (if startswith t ''-'' then - digits_value 0 body else digits_value 0 body)
         else None)"

subsection \<open>\<^verbatim>\<open>parse_attributes\<close>\<close>

text \<open>
  The attribute dictionary is a map from keys to values; a later pair with the same key
  overwrites an earlier one. A part without \<^verbatim>\<open>=\<close> and without a space is skipped.
\<close>

fun parse_attributes_loop :: "(string \<rightharpoonup> string) \<Rightarrow> string list \<Rightarrow> (string \<rightharpoonup> string)" where
  "parse_attributes_loop attrs [] = attrs"
| "parse_attributes_loop attrs (part # rest) =
     (if part = [] then parse_attributes_loop attrs rest
      else if CHR ''='' \<in> set part then
        parse_attributes_loop
          (attrs(fst (split_first (CHR ''='') part) \<mapsto> snd (split_first (CHR ''='') part))) rest
      else if CHR '' '' \<in> set part then
        parse_attributes_loop
          (attrs(fst (split_first (CHR '' '') part) \<mapsto> snd (split_first (CHR '' '') part))) rest
      else parse_attributes_loop attrs rest)"

definition parse_attributes :: "string \<Rightarrow> (string \<rightharpoonup> string)" where
  "parse_attributes attr_str =
     parse_attributes_loop Map.empty (split_char (CHR '';'') (strip attr_str))"

subsection \<open>The scan of the annotation file\<close>

text \<open>
  A CDS entry is the tuple \<open>(seqid, start, end, strand_s)\<close> of the source.
  \<^verbatim>\<open>cds_by_parent\<close> is a \<^verbatim>\<open>defaultdict(list)\<close> iterated in insertion order, so it is
  an association list in the order in which the keys were first used;
  \<open>dict_append\<close> is \<^verbatim>\<open>cds_by_parent[p].append(x)\<close>.
\<close>

type_synonym cds_entry = "string \<times> int \<times> int \<times> string"

definition seqid_of :: "cds_entry \<Rightarrow> string" where
  "seqid_of e = fst e"

definition exon_of :: "cds_entry \<Rightarrow> exon" where
  "exon_of e = (fst (snd e), fst (snd (snd e)))"

definition strand_of :: "cds_entry \<Rightarrow> string" where
  "strand_of e = snd (snd (snd e))"

type_synonym cds_index = "(string \<times> cds_entry list) list"

fun dict_append :: "cds_index \<Rightarrow> string \<Rightarrow> cds_entry \<Rightarrow> cds_index" where
  "dict_append [] p x = [(p, [x])]"
| "dict_append (kv # d) p x =
     (if fst kv = p then (fst kv, snd kv @ [x]) # d else kv # dict_append d p x)"

text \<open>
  \<^verbatim>\<open>matching_attrs\<close> is a set of strings, kept as a list without duplicates;
  \<open>set_add\<close> is \<^verbatim>\<open>matching_attrs.add(x)\<close>. The loop over the six attribute keys adds
  \<^verbatim>\<open>f"{key}={val}"\<close> for each value that is non-empty and contains the query. (The list
  \<^verbatim>\<open>candidate_lines\<close> of the source is only appended to and never read; it is left
  out.)
\<close>

definition set_add :: "string \<Rightarrow> string list \<Rightarrow> string list" where
  "set_add x xs = (if x \<in> set xs then xs else xs @ [x])"

definition match_keys :: "string list" where
  "match_keys = [''ID'', ''Parent'', ''Name'', ''gene_id'', ''transcript_id'', ''Dbxref'']"

fun keys_loop :: "string \<Rightarrow> (string \<rightharpoonup> string) \<Rightarrow> string list \<Rightarrow> string list \<Rightarrow> string list" where
  "keys_loop query attrs matching_attrs [] = matching_attrs"
| "keys_loop query attrs matching_attrs (key # keys) =
     keys_loop query attrs
       (case attrs key of
          None \<Rightarrow> matching_attrs
        | Some val \<Rightarrow>
            if val \<noteq> [] \<and> py_in query val then set_add (key @ ''='' @ val) matching_attrs
            else matching_attrs)
       keys"

text \<open>
  Recording a CDS line: \<^verbatim>\<open>attrs.get("Parent") or attrs.get("Gene") or
  attrs.get("Transcript")\<close>, where a missing key and the empty string are both false;
  the parent may be a comma-separated list; without a parent the line's own \<^verbatim>\<open>ID\<close> is
  used.
\<close>

definition truthy :: "string option \<Rightarrow> bool" where
  "truthy v = (v \<noteq> None \<and> v \<noteq> Some [])"

definition py_or :: "string option \<Rightarrow> string option \<Rightarrow> string option" where
  "py_or a b = (if truthy a then a else b)"

fun parents_loop :: "cds_index \<Rightarrow> cds_entry \<Rightarrow> string list \<Rightarrow> cds_index" where
  "parents_loop d x [] = d"
| "parents_loop d x (p # ps) = parents_loop (dict_append d p x) x ps"

definition record_cds :: "cds_index \<Rightarrow> (string \<rightharpoonup> string) \<Rightarrow> cds_entry \<Rightarrow> cds_index" where
  "record_cds d attrs x =
     (let parent = py_or (py_or (attrs ''Parent'') (attrs ''Gene'')) (attrs ''Transcript'')
      in if truthy parent then
           (case parent of
              Some ps \<Rightarrow> parents_loop d x (split_char (CHR '','') ps)
            | None \<Rightarrow> d)
         else
           (case attrs ''ID'' of
              Some cid \<Rightarrow> if cid \<noteq> [] then dict_append d cid x else d
            | None \<Rightarrow> d))"

text \<open>
  One line of the file: comment lines, blank lines and lines with fewer than nine
  columns are skipped; a line with more than nine columns fails in the tuple
  unpacking; \<^verbatim>\<open>int(start_s)\<close> and \<^verbatim>\<open>int(end_s)\<close> may fail. The state is the pair of
  \<^verbatim>\<open>matching_attrs\<close> and \<^verbatim>\<open>cds_by_parent\<close>.
\<close>

definition scan_line :: "string \<Rightarrow> string \<Rightarrow> string list \<times> cds_index \<Rightarrow> error + (string list \<times> cds_index)" where
  "scan_line query line st =
     (if startswith line ''#'' \<or> strip line = [] then Inr st
      else
        (let cols = split_char (CHR 0x09) (rstrip_newline line)
         in if length cols < 9 then Inr st
            else if length cols \<noteq> 9 then Inl UnpackError
            else
              (case py_int (cols ! 3) of
                 None \<Rightarrow> Inl IntParseError
               | Some start \<Rightarrow>
                   (case py_int (cols ! 4) of
                      None \<Rightarrow> Inl IntParseError
                    | Some end_pos \<Rightarrow>
                        (let seqid = cols ! 0;
                             ftype = cols ! 2;
                             strand_s = cols ! 6;
                             attrs = parse_attributes (cols ! 8)
                         in Inr (keys_loop query attrs (fst st) match_keys,
                                 if ftype = ''CDS''
                                 then record_cds (snd st) attrs (seqid, start, end_pos, strand_s)
                                 else snd st))))))"

fun scan_gff :: "string \<Rightarrow> string list \<times> cds_index \<Rightarrow> string list \<Rightarrow> error + (string list \<times> cds_index)" where
  "scan_gff query st [] = Inr st"
| "scan_gff query st (line # rest) =
     (case scan_line query line st of
        Inl e \<Rightarrow> Inl e
      | Inr st' \<Rightarrow> scan_gff query st' rest)"

subsection \<open>Choosing the transcript\<close>

text \<open>
  When no attribute matched, the parents that contain the query are added to the
  diagnostics as \<^verbatim>\<open>Parent_contains=...\<close>.
\<close>

fun candidates_loop :: "string list \<Rightarrow> string list \<Rightarrow> string list" where
  "candidates_loop matching_attrs [] = matching_attrs"
| "candidates_loop matching_attrs (p # ps) =
     candidates_loop (set_add (''Parent_contains='' @ p) matching_attrs) ps"

definition parent_contains :: "string \<Rightarrow> string list \<Rightarrow> cds_index \<Rightarrow> string list" where
  "parent_contains query matching_attrs d =
     (if matching_attrs = []
      then candidates_loop matching_attrs (filter (py_in query) (map fst d))
      else matching_attrs)"

text \<open>
  The three loops that set \<^verbatim>\<open>chosen\<close> and \<^verbatim>\<open>cds_list\<close>, each leaving at its
  \<^verbatim>\<open>break\<close>; the state is the pair of the two variables. The second loop runs when
  \<^verbatim>\<open>chosen is None\<close>, the third when \<^verbatim>\<open>cds_list\<close> is empty.
\<close>

type_synonym choice = "string option \<times> cds_entry list"

fun first_loop :: "string \<Rightarrow> string list \<Rightarrow> choice \<Rightarrow> cds_index \<Rightarrow> choice" where
  "first_loop query matching_attrs st [] = st"
| "first_loop query matching_attrs st (kv # rest) =
     (if py_in query (fst kv) \<or> list_ex (py_in query) matching_attrs then
        (if py_in query (fst kv) then (Some (fst kv), snd kv)
         else first_loop query matching_attrs st rest)
      else first_loop query matching_attrs st rest)"

fun second_loop :: "string \<Rightarrow> choice \<Rightarrow> cds_index \<Rightarrow> choice" where
  "second_loop query st [] = st"
| "second_loop query st (kv # rest) =
     (if py_in query (fst kv) then (Some (fst kv), snd kv) else second_loop query st rest)"

fun third_loop :: "string \<Rightarrow> choice \<Rightarrow> cds_index \<Rightarrow> choice" where
  "third_loop query st [] = st"
| "third_loop query st (kv # rest) =
     (if startswith (fst kv) query then (Some (fst kv), snd kv) else third_loop query st rest)"

definition select_parent :: "string \<Rightarrow> string list \<Rightarrow> cds_index \<Rightarrow> choice" where
  "select_parent query matching_attrs d =
     (let st1 = first_loop query matching_attrs (None, []) d;
          st2 = (if fst st1 = None then second_loop query st1 d else st1);
          st3 = (if snd st2 = [] then third_loop query st2 d else st2)
      in st3)"

subsection \<open>The gene model\<close>

text \<open>
  \<^verbatim>\<open>list.sort(key=...)\<close> is stable, and so is \<^const>\<open>sort_key\<close>. With
  \<^verbatim>\<open>reverse=True\<close> the sort is still stable: elements with equal keys keep their
  original order, which is what reversing the list, sorting it and reversing the result
  gives.
\<close>

definition transcript_order :: "int \<Rightarrow> exon list \<Rightarrow> exon list" where
  "transcript_order strand exons =
     (if strand = 1 then sort_key fst exons else rev (sort_key fst (rev exons)))"

text \<open>
  The result of the lookup: either the diagnostics alone (the source returns
  \<^verbatim>\<open>None, None, None, sorted(matching_attrs)\<close>) or chromosome, strand, exons and
  diagnostics. \<open>gene_model\<close> is the part of the function after the choice: the check for
  an empty \<^verbatim>\<open>cds_list\<close>, the consistency check on the sets of sequence ids and
  strand symbols (\<^verbatim>\<open>len(set(...)) > 1\<close> is the number of distinct values), and the
  ordering of the exons. The variable \<^verbatim>\<open>chosen\<close> is read only to print the message of
  the consistency error, so \<open>gene_model\<close> takes \<^verbatim>\<open>cds_list\<close> alone.
\<close>

datatype lookup =
    NotFound "string list"
  | Found string int "exon list" "string list"

definition gene_model :: "cds_entry list \<Rightarrow> string list \<Rightarrow> error + lookup" where
  "gene_model cds_list matching_attrs =
     (if cds_list = [] then Inr (NotFound (sort matching_attrs))
      else if 1 < length (remdups (map seqid_of cds_list))
              \<or> 1 < length (remdups (map strand_of cds_list))
      then Inl InconsistentGeneModelError
      else
        (let chrom = seqid_of (hd cds_list);
             strand = (if strand_of (hd cds_list) = ''+'' then 1 else - 1)
         in Inr (Found chrom strand (transcript_order strand (map exon_of cds_list))
                       (sort matching_attrs))))"

definition find_cds_for_gene :: "string list \<Rightarrow> string \<Rightarrow> error + lookup" where
  "find_cds_for_gene gff_lines query =
     (case scan_gff query ([], []) gff_lines of
        Inl e \<Rightarrow> Inl e
      | Inr st \<Rightarrow>
          (let matching_attrs = parent_contains query (fst st) (snd st)
           in gene_model (snd (select_parent query matching_attrs (snd st))) matching_attrs))"



subsection \<open>Example annotation files\<close>

text \<open>
  Lines of an annotation file are written as their nine tab-separated columns followed
  by a line feed.
\<close>

fun tab_join :: "string list \<Rightarrow> string" where
  "tab_join [] = []"
| "tab_join [c] = c"
| "tab_join (c # d # cs) = c @ [CHR 0x09] @ tab_join (d # cs)"

definition gff_line :: "string list \<Rightarrow> string" where
  "gff_line cols = tab_join cols @ [CHR 0x0A]"

definition cds_line :: "string \<Rightarrow> string \<Rightarrow> string \<Rightarrow> string \<Rightarrow> string \<Rightarrow> string" where
  "cds_line seqid start_s end_s strand_s attr_s =
     gff_line [seqid, ''src'', ''CDS'', start_s, end_s, ''.'', strand_s, ''0'', attr_s]"




definition tied_starts_plus :: "string list" where
  "tied_starts_plus =
     [cds_line ''chr1'' ''100'' ''200'' ''+'' ''Parent=T1'',
      cds_line ''chr1'' ''100'' ''150'' ''+'' ''Parent=T1'']"

definition tied_starts_minus :: "string list" where
  "tied_starts_minus =
     [cds_line ''chr1'' ''100'' ''200'' ''-'' ''Parent=T1'',
      cds_line ''chr1'' ''100'' ''150'' ''-'' ''Parent=T1'']"

section \<open>Properties of the codon coordinate mapper\<close>

lemma exons_loop_acc:
  "exons_loop cs ce strand running acc exons = acc @ exons_loop cs ce strand running [] exons"
proof (induction exons arbitrary: running acc)
  case Nil
  show ?case by simp
next
  case (Cons ex rest)
  show ?case
  proof (cases "exon_overlap cs ce strand running ex")
    case None
    then show ?thesis using Cons.IH [of _ acc] by simp
  next
    case (Some g)
    then show ?thesis using Cons.IH [of _ "acc @ [g]"] Cons.IH [of _ "[g]"] by simp
  qed
qed

text \<open>
  Claim C1. For a gene model with one exon \<open>(s, e)\<close> of length at least 3, amino-acid
  position 1 maps to the three bases at the exon's first transcript base: \<open>(s, s + 2)\<close>
  on strand +1 and \<open>(e - 2, e)\<close> on strand -1.
\<close>

theorem single_exon_first_codon:
  assumes "e - s + 1 \<ge> 3"
  shows "aa_to_genomic_from_exons [(s, e)] 1 1 = Inr (s, s + 2)
       \<and> aa_to_genomic_from_exons [(s, e)] 1 (- 1) = Inr (e - 2, e)"
  using assms
  by (simp add: aa_to_genomic_from_exons_def codon_fragments_def exon_overlap_def Let_def)

theorem single_exon_first_codon_witness:
  "(300::int) - 100 + 1 \<ge> 3
   \<and> aa_to_genomic_from_exons [(100, 300)] 1 1 = Inr (100, 102)
   \<and> aa_to_genomic_from_exons [(100, 300)] 1 (- 1) = Inr (298, 300)"
proof -
  have h: "(300::int) - 100 + 1 \<ge> 3" by simp
  from single_exon_first_codon [OF h] show ?thesis by simp
qed

lemma exon_overlap_None_iff:
  "exon_overlap cs ce strand running ex = None
   \<longleftrightarrow> \<not> spans_overlap (running + 1, running + (snd ex - fst ex + 1)) (cs, ce)"
  by (simp add: exon_overlap_def spans_overlap_def Let_def)

lemma exons_loop_Nil_iff:
  "exons_loop cs ce strand running [] exons = []
   \<longleftrightarrow> (\<forall>sp \<in> set (exon_cds_spans running exons). \<not> spans_overlap sp (cs, ce))"
proof (induction exons arbitrary: running)
  case Nil
  show ?case by simp
next
  case (Cons ex rest)
  show ?case
  proof (cases "exon_overlap cs ce strand running ex")
    case None
    then show ?thesis using Cons.IH exon_overlap_None_iff [of cs ce strand running ex] by simp
  next
    case (Some g)
    have "exons_loop cs ce strand running [] (ex # rest) \<noteq> []"
      using Some exons_loop_acc [of cs ce strand _ "[g]" rest] by simp
    moreover have "spans_overlap (running + 1, running + (snd ex - fst ex + 1)) (cs, ce)"
      using Some exon_overlap_None_iff [of cs ce strand running ex] by simp
    ultimately show ?thesis by simp
  qed
qed

lemma codon_fragments_Nil_iff:
  "codon_fragments exons aa strand = []
   \<longleftrightarrow> (\<forall>sp \<in> set (exon_cds_spans 0 exons). \<not> spans_overlap sp (codon_cds_span aa))"
  by (simp add: codon_fragments_def codon_cds_span_def Let_def exons_loop_Nil_iff)

text \<open>
  Claim C5. \<^verbatim>\<open>aa_to_genomic_from_exons\<close> raises its \<^verbatim>\<open>ValueError\<close> exactly when the
  codon's CDS-relative span overlaps no exon's CDS-relative span; whenever some exon's
  span overlaps it, an interval is returned.
\<close>

theorem codon_not_found_iff:
  "if \<exists>sp \<in> set (exon_cds_spans 0 exons). spans_overlap sp (codon_cds_span aa_pos)
   then \<exists>g. aa_to_genomic_from_exons exons aa_pos strand = Inr g
   else aa_to_genomic_from_exons exons aa_pos strand = Inl CodonNotFoundError"
  using codon_fragments_Nil_iff [of exons aa_pos strand]
  by (auto simp add: aa_to_genomic_from_exons_def Let_def)

theorem codon_not_found_iff_witness:
  "aa_to_genomic_from_exons [(100, 150), (200, 260)] 37 1 = Inr (257, 259)
   \<and> aa_to_genomic_from_exons [(100, 150), (200, 260)] 39 1 = Inl CodonNotFoundError"
  using codon_not_found_iff [of "[(100, 150), (200, 260)]" 37 1]
    codon_not_found_iff [of "[(100, 150), (200, 260)]" 39 1]
  by (simp add: spans_overlap_def codon_cds_span_def aa_to_genomic_from_exons_def codon_fragments_def exon_overlap_def Let_def)


lemma exon_overlap_valid:
  "exon_overlap cs ce strand running ex = Some g \<Longrightarrow> fst g \<le> snd g"
  by (auto simp add: exon_overlap_def Let_def split: if_splits)

lemma exon_overlap_within:
  assumes "running + 1 \<le> cs" and "ce \<le> running + (snd ex - fst ex + 1)" and "cs \<le> ce"
  shows "\<exists>g. exon_overlap cs ce strand running ex = Some g \<and> fst g \<le> snd g
             \<and> snd g - fst g = ce - cs"
  using assms by (simp add: exon_overlap_def Let_def)

lemma exons_loop_past:
  assumes "valid_exons exons" and "ce \<le> running"
  shows "exons_loop cs ce strand running [] exons = []"
  using assms
proof (induction exons arbitrary: running)
  case Nil
  show ?case by simp
next
  case (Cons ex rest)
  from Cons.prems have v: "fst ex \<le> snd ex" and vr: "valid_exons rest"
    by (simp_all add: valid_exons_def)
  have "exon_overlap cs ce strand running ex = None"
    using Cons.prems(2) by (simp add: exon_overlap_def Let_def)
  moreover have "exons_loop cs ce strand (running + (snd ex - fst ex + 1)) [] rest = []"
    using Cons.IH [OF vr, of "running + (snd ex - fst ex + 1)"] Cons.prems(2) v by simp
  ultimately show ?case by simp
qed

lemma exon_cds_spans_lower:
  assumes "valid_exons exons" and "sp \<in> set (exon_cds_spans running exons)"
  shows "running + 1 \<le> fst sp"
  using assms
proof (induction exons arbitrary: running)
  case Nil
  then show ?case by simp
next
  case (Cons ex rest)
  from Cons.prems have v: "fst ex \<le> snd ex" and vr: "valid_exons rest"
    by (simp_all add: valid_exons_def)
  from Cons.prems(2) consider "sp = (running + 1, running + (snd ex - fst ex + 1))"
    | "sp \<in> set (exon_cds_spans (running + (snd ex - fst ex + 1)) rest)" by auto
  then show ?case
  proof cases
    case 1
    then show ?thesis by simp
  next
    case 2
    from Cons.IH [OF vr 2] v show ?thesis by simp
  qed
qed

lemma exons_loop_within:
  assumes "valid_exons exons" and "sp \<in> set (exon_cds_spans running exons)"
    and "fst sp \<le> cs" and "ce \<le> snd sp" and "cs \<le> ce"
  shows "\<exists>g. exons_loop cs ce strand running [] exons = [g] \<and> fst g \<le> snd g
             \<and> snd g - fst g = ce - cs"
  using assms(1,2)
proof (induction exons arbitrary: running)
  case Nil
  then show ?case by simp
next
  case (Cons ex rest)
  from Cons.prems have v: "fst ex \<le> snd ex" and vr: "valid_exons rest"
    by (simp_all add: valid_exons_def)
  let ?r' = "running + (snd ex - fst ex + 1)"
  from Cons.prems(2) consider "sp = (running + 1, ?r')"
    | "sp \<in> set (exon_cds_spans ?r' rest)" by auto
  then show ?case
  proof cases
    case 1
    with assms(3,4) have "running + 1 \<le> cs" and "ce \<le> ?r'" by simp_all
    from exon_overlap_within [OF this assms(5), of strand]
    obtain g where g: "exon_overlap cs ce strand running ex = Some g"
      "fst g \<le> snd g" "snd g - fst g = ce - cs" by blast
    have "exons_loop cs ce strand ?r' [] rest = []"
      using exons_loop_past [OF vr \<open>ce \<le> ?r'\<close>] .
    then have "exons_loop cs ce strand running [] (ex # rest) = [g]"
      using g(1) exons_loop_acc [of cs ce strand ?r' "[g]" rest] by simp
    with g(2,3) show ?thesis by blast
  next
    case 2
    from exon_cds_spans_lower [OF vr 2] assms(3) have "?r' + 1 \<le> cs" by simp
    then have "exon_overlap cs ce strand running ex = None"
      by (simp add: exon_overlap_def Let_def)
    with Cons.IH [OF vr 2] show ?thesis by simp
  qed
qed

text \<open>
  Claim C4. For a valid exon list, any strand value and any amino-acid position whose
  codon span lies inside the CDS-relative span of one exon, the interval returned has
  \<open>g_s \<le> g_e\<close> and length exactly 3.
\<close>

theorem codon_within_one_exon:
  assumes "valid_exons exons"
    and "\<exists>sp \<in> set (exon_cds_spans 0 exons). span_within (codon_cds_span aa_pos) sp"
  shows "\<exists>g_s g_e. aa_to_genomic_from_exons exons aa_pos strand = Inr (g_s, g_e)
                   \<and> g_s \<le> g_e \<and> g_e - g_s + 1 = 3"
proof -
  let ?cs = "(aa_pos - 1) * 3 + 1"
  from assms(2) obtain sp where sp: "sp \<in> set (exon_cds_spans 0 exons)"
    "fst sp \<le> ?cs" "?cs + 2 \<le> snd sp"
    by (auto simp add: span_within_def codon_cds_span_def)
  from exons_loop_within [OF assms(1) sp, of strand]
  obtain g where g: "exons_loop ?cs (?cs + 2) strand 0 [] exons = [g]"
    "fst g \<le> snd g" "snd g - fst g = 2" by auto
  from g(1) have "aa_to_genomic_from_exons exons aa_pos strand = Inr (fst g, snd g)"
    by (simp add: aa_to_genomic_from_exons_def codon_fragments_def Let_def)
  moreover from g(2,3) have "fst g \<le> snd g \<and> snd g - fst g + 1 = 3" by simp
  ultimately show ?thesis by blast
qed

theorem codon_within_one_exon_witness:
  "valid_exons [(100, 150), (200, 260)]
   \<and> (52, 112) \<in> set (exon_cds_spans 0 [(100, 150), (200, 260)])
   \<and> span_within (codon_cds_span 18) (52, 112)
   \<and> (\<exists>g_s g_e. aa_to_genomic_from_exons [(100, 150), (200, 260)] 18 (- 1) = Inr (g_s, g_e)
                   \<and> g_s \<le> g_e \<and> g_e - g_s + 1 = 3)"
proof -
  have v: "valid_exons [(100, 150), (200, 260)]" by (simp add: valid_exons_def)
  have m: "(52, 112) \<in> set (exon_cds_spans 0 [(100, 150), (200, 260)])" by simp
  have w: "span_within (codon_cds_span 18) (52, 112)"
    by (simp add: span_within_def codon_cds_span_def)
  from m w have "\<exists>sp \<in> set (exon_cds_spans 0 [(100, 150), (200, 260)]).
      span_within (codon_cds_span 18) sp" by blast
  from codon_within_one_exon [OF v this, of "- 1"] v m w show ?thesis by blast
qed

lemma merge_loop_fst: "fst (merge_loop ms me rest) = ms"
  by (induction rest arbitrary: me) simp_all

lemma merge_loop_lower: "me \<le> snd (merge_loop ms me rest)"
proof (induction rest arbitrary: me)
  case Nil
  show ?case by simp
next
  case (Cons g rest)
  show ?case using Cons.IH [of "max me (snd g)"] Cons.IH [of me] by simp
qed

lemma merge_loop_length:
  assumes "\<forall>g \<in> set rest. fst g \<le> snd g"
  shows "snd (merge_loop ms me rest) \<le> me + sum_list (map range_len rest)"
  using assms
proof (induction rest arbitrary: me)
  case Nil
  show ?case by simp
next
  case (Cons g rest)
  from Cons.prems have g: "fst g \<le> snd g" and r: "\<forall>g \<in> set rest. fst g \<le> snd g"
    by simp_all
  show ?case
  proof (cases "fst g \<le> me + 1")
    case True
    have "snd (merge_loop ms (max me (snd g)) rest)
            \<le> max me (snd g) + sum_list (map range_len rest)"
      using Cons.IH [OF r] .
    also have "max me (snd g) \<le> me + range_len g"
      using True g by (simp add: range_len_def)
    finally show ?thesis using True by simp
  next
    case False
    have "snd (merge_loop ms me rest) \<le> me + sum_list (map range_len rest)"
      using Cons.IH [OF r] .
    moreover have "0 \<le> range_len g" using g by (simp add: range_len_def)
    ultimately show ?thesis using False by simp
  qed
qed

lemma merge_loop_all_adjacent:
  assumes "\<forall>g \<in> set rest. fst g \<le> me + 1"
  shows "merge_loop ms me rest = (ms, Max (insert me (snd ` set rest)))"
  using assms
proof (induction rest arbitrary: me)
  case Nil
  show ?case by simp
next
  case (Cons g rest)
  from Cons.prems have "\<forall>h \<in> set rest. fst h \<le> max me (snd g) + 1" by auto
  from Cons.IH [OF this] Cons.prems
  have "merge_loop ms me (g # rest) = (ms, Max (insert (max me (snd g)) (snd ` set rest)))"
    by simp
  also have "Max (insert (max me (snd g)) (snd ` set rest))
           = Max (insert me (snd ` set (g # rest)))"
  proof (cases "rest = []")
    case True
    then show ?thesis by (simp add: max.commute)
  next
    case False
    then show ?thesis by (simp add: max.assoc max.commute max.left_commute)
  qed
  finally show ?case .
qed

lemma merge_loop_all_apart:
  assumes "\<forall>g \<in> set rest. me + 1 < fst g"
  shows "merge_loop ms me rest = (ms, me)"
  using assms by (induction rest) simp_all

lemma exons_loop_fragments_valid:
  "\<forall>g \<in> set (exons_loop cs ce strand running [] exons). fst g \<le> snd g"
proof (induction exons arbitrary: running)
  case Nil
  show ?case by simp
next
  case (Cons ex rest)
  show ?case
  proof (cases "exon_overlap cs ce strand running ex")
    case None
    then show ?thesis using Cons.IH by simp
  next
    case (Some g)
    then show ?thesis
      using Cons.IH [of "running + (snd ex - fst ex + 1)"] exon_overlap_valid [OF Some]
        exons_loop_acc [of cs ce strand _ "[g]" rest] by simp
  qed
qed

lemma exon_overlap_length:
  assumes "fst ex \<le> snd ex"
  shows "(case exon_overlap cs ce strand running ex of None \<Rightarrow> 0 | Some g \<Rightarrow> range_len g)
       = max 0 (min ce (running + (snd ex - fst ex + 1)) - max cs (running + 1) + 1)"
  using assms by (simp add: exon_overlap_def Let_def range_len_def max_def min_def)

lemma exons_loop_total_length:
  assumes "valid_exons exons" and "cs \<le> ce"
  shows "sum_list (map range_len (exons_loop cs ce strand running [] exons))
       = max 0 (min ce (running + cds_length exons) - max cs (running + 1) + 1)"
  using assms(1)
proof (induction exons arbitrary: running)
  case Nil
  show ?case using assms(2) by (simp add: cds_length_def max_def min_def)
next
  case (Cons ex rest)
  from Cons.prems have v: "fst ex \<le> snd ex" and vr: "valid_exons rest"
    by (simp_all add: valid_exons_def)
  let ?len = "snd ex - fst ex + 1"
  have L: "cds_length (ex # rest) = ?len + cds_length rest" by (simp add: cds_length_def)
  have Lr: "0 \<le> cds_length rest"
    using vr unfolding cds_length_def valid_exons_def
    by (induction rest) (simp_all add: add_nonneg_nonneg)
  have split: "sum_list (map range_len (exons_loop cs ce strand running [] (ex # rest)))
      = (case exon_overlap cs ce strand running ex of None \<Rightarrow> 0 | Some g \<Rightarrow> range_len g)
        + sum_list (map range_len (exons_loop cs ce strand (running + ?len) [] rest))"
  proof (cases "exon_overlap cs ce strand running ex")
    case None
    then show ?thesis by simp
  next
    case (Some g)
    then show ?thesis using exons_loop_acc [of cs ce strand _ "[g]" rest] by simp
  qed
  have "sum_list (map range_len (exons_loop cs ce strand running [] (ex # rest)))
      = max 0 (min ce (running + ?len) - max cs (running + 1) + 1)
        + max 0 (min ce (running + ?len + cds_length rest) - max cs (running + ?len + 1) + 1)"
    unfolding split exon_overlap_length [OF v] Cons.IH [OF vr] by simp
  also have "\<dots> = max 0 (min ce (running + (?len + cds_length rest)) - max cs (running + 1) + 1)"
    using v Lr assms(2) by (simp add: max_def min_def)
  finally show ?case unfolding L .
qed


lemma cds_length_nonneg: "valid_exons exons \<Longrightarrow> 0 \<le> cds_length exons"
  unfolding cds_length_def valid_exons_def
  by (induction exons) (simp_all add: add_nonneg_nonneg)

lemma sum_list_range_len_sort:
  "sum_list (map range_len (sort gs)) = sum_list (map range_len gs)"
proof -
  have "mset (map range_len (sort gs)) = mset (map range_len gs)" by simp
  then show ?thesis by (metis sum_mset_sum_list)
qed

lemma merged_result:
  assumes "codon_fragments exons aa_pos strand \<noteq> []"
  shows "\<exists>g_s g_e. aa_to_genomic_from_exons exons aa_pos strand = Inr (g_s, g_e)
           \<and> g_s \<le> g_e
           \<and> g_e - g_s + 1 \<le> sum_list (map range_len (codon_fragments exons aa_pos strand))"
proof -
  let ?F = "codon_fragments exons aa_pos strand"
  have valid: "\<forall>g \<in> set ?F. fst g \<le> snd g"
    by (simp add: codon_fragments_def Let_def exons_loop_fragments_valid)
  from assms have "sort ?F \<noteq> []" by (metis length_sort length_0_conv)
  then obtain g0 rest where S: "sort ?F = g0 # rest" by (cases "sort ?F") auto
  have "set (sort ?F) = set ?F" by simp
  with S valid have g0: "fst g0 \<le> snd g0" and r: "\<forall>g \<in> set rest. fst g \<le> snd g"
    by auto
  let ?m = "merge_loop (fst g0) (snd g0) rest"
  have res: "aa_to_genomic_from_exons exons aa_pos strand = Inr (fst ?m, snd ?m)"
    using assms S by (simp add: aa_to_genomic_from_exons_def Let_def)
  have f: "fst ?m = fst g0" by (rule merge_loop_fst)
  have lo: "snd g0 \<le> snd ?m" by (rule merge_loop_lower)
  have "snd ?m \<le> snd g0 + sum_list (map range_len rest)" by (rule merge_loop_length [OF r])
  then have "snd ?m - fst ?m + 1 \<le> sum_list (map range_len (sort ?F))"
    unfolding S f by (simp add: range_len_def)
  then have hi: "snd ?m - fst ?m + 1 \<le> sum_list (map range_len ?F)"
    by (simp only: sum_list_range_len_sort)
  from g0 lo f have "fst ?m \<le> snd ?m" by simp
  with res hi show ?thesis by blast
qed

lemma cds_length_Cons: "cds_length (ex # rest) = (snd ex - fst ex + 1) + cds_length rest"
  by (simp add: cds_length_def)

lemma valid_exons_Cons: "valid_exons (ex # rest) \<longleftrightarrow> fst ex \<le> snd ex \<and> valid_exons rest"
  by (simp add: valid_exons_def)

lemma cds_length_zero:
  assumes "valid_exons exons" and "cds_length exons \<le> 0"
  shows "exons = []"
proof (cases exons)
  case Nil
  then show ?thesis .
next
  case (Cons ex rest)
  with assms(1) have "fst ex \<le> snd ex" and "valid_exons rest"
    by (simp_all add: valid_exons_Cons)
  with cds_length_nonneg [of rest] have "1 \<le> cds_length exons"
    unfolding Cons cds_length_Cons by simp
  with assms(2) show ?thesis by simp
qed

lemma cds_length_one:
  assumes "valid_exons exons" and "cds_length exons = 1"
  shows "\<exists>x. exons = [(x, x)]"
proof (cases exons)
  case Nil
  with assms(2) show ?thesis by (simp add: cds_length_def)
next
  case (Cons ex rest)
  with assms(1) have v: "fst ex \<le> snd ex" and vr: "valid_exons rest"
    by (simp_all add: valid_exons_Cons)
  from assms(2) have s: "(snd ex - fst ex + 1) + cds_length rest = 1"
    unfolding Cons cds_length_Cons .
  with v cds_length_nonneg [OF vr] have "cds_length rest \<le> 0" and "snd ex = fst ex" by simp_all
  with cds_length_zero [OF vr] have "rest = []" and "ex = (fst ex, fst ex)"
    by (simp_all add: prod_eq_iff)
  with Cons show ?thesis by blast
qed

lemma last_exon_fragment:
  fixes strand :: int
  assumes "fst ex \<le> snd ex" and "r + 1 \<le> cs" and "cs \<le> r + (snd ex - fst ex + 1)"
    and "r + (snd ex - fst ex + 1) \<le> cs + 1"
  defines "g1 \<equiv> (if strand = 1 then fst ex + (cs - (r + 1)) else snd ex - (cs - (r + 1)))"
    and "g2 \<equiv> (if strand = 1 then snd ex else fst ex)"
  shows "exon_overlap cs (cs + 2) strand r ex = Some (min g1 g2, max g1 g2)"
    and "max g1 g2 \<le> min g1 g2 + 1"
  using assms(1-4) unfolding g1_def g2_def
  by (simp_all add: exon_overlap_def Let_def)

lemma last_base_fragment:
  assumes "fst ex \<le> snd ex" and "cs = r + (snd ex - fst ex + 1)"
  shows "exon_overlap cs (cs + 2) strand r ex
       = Some (if strand = 1 then (snd ex, snd ex) else (fst ex, fst ex))"
  using assms by (simp add: exon_overlap_def Let_def)

lemma single_base_exon_fragment:
  "exon_overlap cs (cs + 2) strand cs (x, x) = Some (x, x)"
  by (simp add: exon_overlap_def Let_def)

lemma genomic_of_cds_position_skip:
  assumes "running + (snd ex - fst ex + 1) < pos"
  shows "genomic_of_cds_position strand running (ex # rest) pos
       = genomic_of_cds_position strand (running + (snd ex - fst ex + 1)) rest pos"
  using assms by simp

lemma genomic_of_cds_position_head:
  assumes "running + 1 \<le> pos" and "pos \<le> running + (snd ex - fst ex + 1)"
  shows "genomic_of_cds_position strand running (ex # rest) pos
       = Some (if strand = 1 then fst ex + (pos - (running + 1))
               else snd ex - (pos - (running + 1)))"
  using assms by simp

lemma fragments_at_cds_end:
  assumes "valid_exons exons" and "r + 1 \<le> cs" and "cs \<le> r + cds_length exons"
    and "r + cds_length exons \<le> cs + 1"
  shows "\<exists>g1 g2. genomic_of_cds_position strand r exons cs = Some g1
           \<and> genomic_of_cds_position strand r exons (r + cds_length exons) = Some g2
           \<and> (exons_loop cs (cs + 2) strand r [] exons = [(min g1 g2, max g1 g2)]
                \<and> max g1 g2 \<le> min g1 g2 + 1
              \<or> exons_loop cs (cs + 2) strand r [] exons = [(g1, g1), (g2, g2)])"
  using assms
proof (induction exons arbitrary: r)
  case Nil
  then show ?case by (simp add: cds_length_def)
next
  case (Cons ex rest)
  let ?len = "snd ex - fst ex + 1"
  let ?r' = "r + ?len"
  from Cons.prems(1) have v: "fst ex \<le> snd ex" and vr: "valid_exons rest"
    by (simp_all add: valid_exons_Cons)
  note L = cds_length_Cons [of ex rest]
  have Lr: "0 \<le> cds_length rest" by (rule cds_length_nonneg [OF vr])
  show ?case
  proof (cases "cs \<le> ?r'")
    case False
    then have far: "?r' + 1 \<le> cs" by simp
    have none: "exon_overlap cs (cs + 2) strand r ex = None"
      using far by (simp add: exon_overlap_def Let_def)
    have b1: "cs \<le> ?r' + cds_length rest" using Cons.prems(3) unfolding L by simp
    have b2: "?r' + cds_length rest \<le> cs + 1" using Cons.prems(4) unfolding L by simp
    from Cons.IH [OF vr far b1 b2] obtain g1 g2 where
      g: "genomic_of_cds_position strand ?r' rest cs = Some g1"
         "genomic_of_cds_position strand ?r' rest (?r' + cds_length rest) = Some g2"
         "exons_loop cs (cs + 2) strand ?r' [] rest = [(min g1 g2, max g1 g2)]
            \<and> max g1 g2 \<le> min g1 g2 + 1
          \<or> exons_loop cs (cs + 2) strand ?r' [] rest = [(g1, g1), (g2, g2)]"
      by blast
    have "?r' < cs" using far by simp
    from genomic_of_cds_position_skip [OF this] g(1)
    have p1: "genomic_of_cds_position strand r (ex # rest) cs = Some g1" by (rule trans)
    have eq: "r + cds_length (ex # rest) = ?r' + cds_length rest" unfolding L by simp
    have "?r' < ?r' + cds_length rest" using far b1 by simp
    from genomic_of_cds_position_skip [OF this] g(2)
    have "genomic_of_cds_position strand r (ex # rest) (?r' + cds_length rest) = Some g2"
      by (rule trans)
    then have p2: "genomic_of_cds_position strand r (ex # rest) (r + cds_length (ex # rest))
        = Some g2"
      unfolding eq .
    have p3: "exons_loop cs (cs + 2) strand r [] (ex # rest)
        = exons_loop cs (cs + 2) strand ?r' [] rest"
      using none by simp
    from p1 p2 g(3) show ?thesis unfolding p3 by blast
  next
    case True
    note in_head = True
    show ?thesis
    proof (cases "cds_length rest \<le> 0")
      case True
      from cds_length_zero [OF vr True] have rest: "rest = []" .
      then have Lz: "cds_length rest = 0" by (simp add: cds_length_def)
      have eq: "r + cds_length (ex # rest) = ?r'" unfolding L Lz by simp
      have hi: "?r' \<le> cs + 1" using Cons.prems(4) unfolding eq .
      let ?g1 = "if strand = 1 then fst ex + (cs - (r + 1)) else snd ex - (cs - (r + 1))"
      let ?g2 = "if strand = 1 then snd ex else fst ex"
      have p1: "genomic_of_cds_position strand r (ex # rest) cs = Some ?g1"
        by (rule genomic_of_cds_position_head [OF Cons.prems(2) in_head])
      have "r + 1 \<le> ?r'" and "?r' \<le> ?r'" using v by simp_all
      from genomic_of_cds_position_head [OF this, of strand rest]
      have "genomic_of_cds_position strand r (ex # rest) ?r' = Some ?g2" by simp
      then have p2: "genomic_of_cds_position strand r (ex # rest) (r + cds_length (ex # rest))
          = Some ?g2"
        unfolding eq .
      have p3: "exons_loop cs (cs + 2) strand r [] (ex # rest) = [(min ?g1 ?g2, max ?g1 ?g2)]"
        unfolding rest
        using last_exon_fragment(1) [OF v Cons.prems(2) in_head hi, of strand] by simp
      have p4: "max ?g1 ?g2 \<le> min ?g1 ?g2 + 1"
        by (rule last_exon_fragment(2) [OF v Cons.prems(2) in_head hi])
      from p1 p2 p3 p4 show ?thesis by blast
    next
      case False
      with Cons.prems(4) in_head Lr have one: "cds_length rest = 1" and cs: "cs = ?r'"
        unfolding L by simp_all
      from cds_length_one [OF vr one] obtain x where rest: "rest = [(x, x)]" by blast
      have eq: "r + cds_length (ex # rest) = ?r' + 1" unfolding L one by simp
      let ?g1 = "if strand = 1 then snd ex else fst ex"
      have "r + 1 \<le> ?r'" and "?r' \<le> ?r'" using v by simp_all
      from genomic_of_cds_position_head [OF this, of strand rest]
      have "genomic_of_cds_position strand r (ex # rest) ?r' = Some ?g1" by simp
      then have p1: "genomic_of_cds_position strand r (ex # rest) cs = Some ?g1"
        unfolding cs .
      have "?r' < ?r' + 1" by simp
      from genomic_of_cds_position_skip [OF this, of strand rest]
      have "genomic_of_cds_position strand r (ex # rest) (?r' + 1) = Some x"
        unfolding rest by simp
      then have p2: "genomic_of_cds_position strand r (ex # rest) (r + cds_length (ex # rest))
          = Some x"
        unfolding eq .
      have f1: "exon_overlap cs (cs + 2) strand r ex = Some (?g1, ?g1)"
        using last_base_fragment [OF v cs, of strand] by simp
      have f2: "exon_overlap cs (cs + 2) strand ?r' (x, x) = Some (x, x)"
        using single_base_exon_fragment [of cs strand x] unfolding cs by simp
      have p3: "exons_loop cs (cs + 2) strand r [] (ex # rest) = [(?g1, ?g1), (x, x)]"
        unfolding rest using f1 f2 by simp
      from p1 p2 p3 show ?thesis by blast
    qed
  qed
qed


lemma merge_two_single_bases:
  assumes "codon_fragments exons aa_pos strand = [(g1, g1), (g2, g2)]"
  shows "aa_to_genomic_from_exons exons aa_pos strand
       = Inr (min g1 g2, if max g1 g2 \<le> min g1 g2 + 1 then max g1 g2 else min g1 g2)"
proof (cases "g1 \<le> g2")
  case True
  then have "sort [(g1, g1), (g2, g2)] = [(g1, g1), (g2, g2)]"
    by (simp add: less_eq_prod_def)
  with True show ?thesis
    unfolding aa_to_genomic_from_exons_def assms Let_def by simp
next
  case False
  then have "sort [(g1, g1), (g2, g2)] = [(g2, g2), (g1, g1)]"
    by (simp add: less_eq_prod_def)
  with False show ?thesis
    unfolding aa_to_genomic_from_exons_def assms Let_def by simp
qed

text \<open>
  Claim C10, as amended. For a valid exon list and an amino-acid position whose codon
  starts at or before the end of the concatenated CDS but ends beyond it, no error is
  raised. Let \<open>g1\<close> be the genomic position of the codon's first base and \<open>g2\<close> that of
  the last base of the CDS; these are the one or two codon bases inside the CDS. The
  interval returned starts at the lower of the two; it ends at the higher one when the
  two are equal or adjacent, and at the lower one when they are more than one base
  apart. Its length is 1 or 2.
\<close>

theorem codon_at_cds_end:
  assumes "valid_exons exons"
    and "fst (codon_cds_span aa_pos) \<le> cds_length exons"
    and "cds_length exons < snd (codon_cds_span aa_pos)"
  shows "\<exists>g1 g2 g_s g_e.
           genomic_of_cds_position strand 0 exons (fst (codon_cds_span aa_pos)) = Some g1
         \<and> genomic_of_cds_position strand 0 exons (cds_length exons) = Some g2
         \<and> aa_to_genomic_from_exons exons aa_pos strand = Inr (g_s, g_e)
         \<and> g_s = min g1 g2
         \<and> g_e = (if max g1 g2 \<le> min g1 g2 + 1 then max g1 g2 else min g1 g2)
         \<and> g_s \<le> g_e \<and> g_e - g_s + 1 < 3"
proof -
  let ?cs = "(aa_pos - 1) * 3 + 1"
  let ?L = "cds_length exons"
  have span: "fst (codon_cds_span aa_pos) = ?cs" by (simp add: codon_cds_span_def)
  from assms(2,3) have b: "?cs \<le> ?L" "?L < ?cs + 2" by (simp_all add: codon_cds_span_def)
  have "0 \<le> ?L" by (rule cds_length_nonneg [OF assms(1)])
  with b have "0 \<le> aa_pos - 1" by arith
  then have cs1: "0 + 1 \<le> ?cs" by simp
  have b1: "?cs \<le> 0 + ?L" and b2: "0 + ?L \<le> ?cs + 1" using b by simp_all
  from fragments_at_cds_end [OF assms(1) cs1 b1 b2, of strand] obtain g1 g2 where
    g: "genomic_of_cds_position strand 0 exons ?cs = Some g1"
       "genomic_of_cds_position strand 0 exons (0 + ?L) = Some g2"
       "exons_loop ?cs (?cs + 2) strand 0 [] exons = [(min g1 g2, max g1 g2)]
          \<and> max g1 g2 \<le> min g1 g2 + 1
        \<or> exons_loop ?cs (?cs + 2) strand 0 [] exons = [(g1, g1), (g2, g2)]"
    by blast
  let ?lo = "min g1 g2"
  let ?hi = "if max g1 g2 \<le> min g1 g2 + 1 then max g1 g2 else min g1 g2"
  have frag: "codon_fragments exons aa_pos strand = exons_loop ?cs (?cs + 2) strand 0 [] exons"
    by (simp add: codon_fragments_def Let_def)
  have res: "aa_to_genomic_from_exons exons aa_pos strand = Inr (?lo, ?hi)"
  proof -
    from g(3) consider
      "codon_fragments exons aa_pos strand = [(min g1 g2, max g1 g2)]"
        "max g1 g2 \<le> min g1 g2 + 1"
      | "codon_fragments exons aa_pos strand = [(g1, g1), (g2, g2)]"
      unfolding frag by blast
    then show ?thesis
    proof cases
      case 1
      then show ?thesis by (simp add: aa_to_genomic_from_exons_def Let_def)
    next
      case 2
      then show ?thesis by (rule merge_two_single_bases)
    qed
  qed
  have g2': "genomic_of_cds_position strand 0 exons ?L = Some g2" using g(2) by simp
  have "?lo \<le> ?hi" and "?hi - ?lo + 1 < 3" by (simp_all add: min_def max_def)
  with g(1) g2' res show ?thesis unfolding span by blast
qed

theorem codon_at_cds_end_witness:
  "valid_exons [(100, 102), (103, 103), (104, 104)]
   \<and> fst (codon_cds_span 2) \<le> cds_length [(100, 102), (103, 103), (104, 104)]
   \<and> cds_length [(100, 102), (103, 103), (104, 104)] < snd (codon_cds_span 2)
   \<and> genomic_of_cds_position 1 0 [(100, 102), (103, 103), (104, 104)] 4 = Some 103
   \<and> genomic_of_cds_position 1 0 [(100, 102), (103, 103), (104, 104)] 5 = Some 104
   \<and> aa_to_genomic_from_exons [(100, 102), (103, 103), (104, 104)] 2 1 = Inr (103, 104)"
proof -
  let ?ex = "[(100, 102), (103, 103), (104, 104)] :: exon list"
  have v: "valid_exons ?ex" by (simp add: valid_exons_def)
  have a: "fst (codon_cds_span 2) \<le> cds_length ?ex"
    by (simp add: codon_cds_span_def cds_length_def)
  have b: "cds_length ?ex < snd (codon_cds_span 2)"
    by (simp add: codon_cds_span_def cds_length_def)
  have c: "fst (codon_cds_span 2) = 4" and l: "cds_length ?ex = 5"
    by (simp_all add: codon_cds_span_def cds_length_def)
  have p1: "genomic_of_cds_position 1 0 ?ex 4 = Some 103" by simp
  have p2: "genomic_of_cds_position 1 0 ?ex 5 = Some 104" by simp
  from codon_at_cds_end [OF v a b, of 1]
  have "aa_to_genomic_from_exons ?ex 2 1 = Inr (103, 104)"
    unfolding c l p1 p2 by auto
  with v a b p1 p2 show ?thesis by blast
qed

text \<open>
  Claim C10 as stated fails: with the one-base exons \<open>(100, 100)\<close> and \<open>(200, 200)\<close> the
  codon of position 1 has two bases inside the CDS, at the genomic positions 100 and
  200, and the interval returned covers only the first.
\<close>

theorem codon_at_cds_end_drops_distant_base:
  "cds_length [(100, 100), (200, 200)] = 2
   \<and> codon_cds_span 1 = (1, 3)
   \<and> genomic_of_cds_position 1 0 [(100, 100), (200, 200)] 1 = Some 100
   \<and> genomic_of_cds_position 1 0 [(100, 100), (200, 200)] 2 = Some 200
   \<and> aa_to_genomic_from_exons [(100, 100), (200, 200)] 1 1 = Inr (100, 100)"
  by (simp add: cds_length_def codon_cds_span_def aa_to_genomic_from_exons_def
      codon_fragments_def exon_overlap_def Let_def)

lemma fragments_split_codon:
  "codon_fragments [(100, 149), (200, 260)] 17 1 = [(148, 149), (200, 200)]"
  by (simp add: codon_fragments_def exon_overlap_def Let_def)

lemma fragments_adjacent_codon:
  "codon_fragments [(100, 149), (150, 260)] 17 1 = [(148, 149), (150, 150)]"
  by (simp add: codon_fragments_def exon_overlap_def Let_def)

lemma Max_insert_max:
  "Max (insert (max me e) (snd ` set rest)) = Max (insert me (insert e (snd ` set rest)))"
proof (cases "rest = []")
  case True
  then show ?thesis by (simp add: max.commute)
next
  case False
  then show ?thesis by (simp add: max.assoc max.commute max.left_commute)
qed

lemma merge_loop_chain:
  assumes "chained me chain"
  shows "merge_loop ms me (chain @ rest)
       = merge_loop ms (Max (insert me (snd ` set chain))) rest"
  using assms
proof (induction chain arbitrary: me)
  case Nil
  show ?case by simp
next
  case (Cons g chain)
  from Cons.prems have adj: "fst g \<le> me + 1" and ch: "chained (max me (snd g)) chain"
    by simp_all
  have "merge_loop ms me ((g # chain) @ rest)
      = merge_loop ms (max me (snd g)) (chain @ rest)"
    using adj by simp
  also have "\<dots> = merge_loop ms (Max (insert (max me (snd g)) (snd ` set chain))) rest"
    by (rule Cons.IH [OF ch])
  also have "Max (insert (max me (snd g)) (snd ` set chain))
      = Max (insert me (snd ` set (g # chain)))"
    unfolding Max_insert_max by simp
  finally show ?case .
qed

lemma sorted_fst_mono:
  assumes "sorted (d # ds)" and "x \<in> set ds"
  shows "fst d \<le> fst (x :: int \<times> int)"
proof -
  from assms have "d \<le> x" by simp
  then show ?thesis by (auto simp add: less_eq_prod_def)
qed

lemma chained_prefix_exists:
  "\<exists>chain dropped. rest = chain @ dropped \<and> chained me chain
     \<and> (dropped = [] \<or> Max (insert me (snd ` set chain)) + 1 < fst (hd dropped))"
proof (induction rest arbitrary: me)
  case Nil
  show ?case by (rule exI [of _ "[]"], rule exI [of _ "[]"]) simp
next
  case (Cons g rest)
  show ?case
  proof (cases "fst g \<le> me + 1")
    case True
    from Cons.IH [of "max me (snd g)"] obtain chain dropped where
      d: "rest = chain @ dropped" "chained (max me (snd g)) chain"
         "dropped = [] \<or> Max (insert (max me (snd g)) (snd ` set chain)) + 1 < fst (hd dropped)"
      by blast
    have m: "Max (insert (max me (snd g)) (snd ` set chain))
        = Max (insert me (snd ` set (g # chain)))"
      unfolding Max_insert_max by simp
    have "g # rest = (g # chain) @ dropped" using d(1) by simp
    moreover have "chained me (g # chain)" using True d(2) by simp
    moreover have "dropped = [] \<or> Max (insert me (snd ` set (g # chain))) + 1 < fst (hd dropped)"
      using d(3) unfolding m .
    ultimately show ?thesis by (intro exI [of _ "g # chain"] exI [of _ dropped] conjI)
  next
    case False
    show ?thesis
      by (rule exI [of _ "[]"], rule exI [of _ "g # rest"]) (use False in simp)
  qed
qed

text \<open>
  Claim C2, as amended. Write the sorted fragments as the first fragment \<open>(a, b)\<close>, then
  the longest run of fragments chained from \<open>b\<close>, then the rest, whose first fragment
  (if there is one) starts more than one past the largest end of the run. The function
  returns the interval from \<open>a\<close> to that largest end: the chained fragments are merged,
  and the rest is dropped without an error. Every sorted list has such a decomposition
  (\<open>chained_prefix_exists\<close>).
\<close>

theorem merge_keeps_chain_drops_rest:
  assumes "sort (codon_fragments exons aa_pos strand) = (a, b) # chain @ dropped"
    and "chained b chain"
    and "dropped = [] \<or> Max (insert b (snd ` set chain)) + 1 < fst (hd dropped)"
  shows "aa_to_genomic_from_exons exons aa_pos strand
       = Inr (a, Max (insert b (snd ` set chain)))"
proof -
  let ?M = "Max (insert b (snd ` set chain))"
  from assms(1) have ne: "codon_fragments exons aa_pos strand \<noteq> []" by auto
  have srt: "sorted ((a, b) # chain @ dropped)"
    using sorted_sort [of "codon_fragments exons aa_pos strand"] unfolding assms(1) .
  then have sd: "sorted dropped" by (simp add: sorted_append)
  have apart: "\<forall>g \<in> set dropped. ?M + 1 < fst g"
  proof (cases dropped)
    case Nil
    then show ?thesis by simp
  next
    case (Cons d ds)
    with assms(3) have d: "?M + 1 < fst d" by simp
    have "\<And>x. x \<in> set ds \<Longrightarrow> fst d \<le> fst x"
      using sd unfolding Cons by (rule sorted_fst_mono)
    with d show ?thesis unfolding Cons by fastforce
  qed
  have "merge_loop a b (chain @ dropped) = merge_loop a ?M dropped"
    by (rule merge_loop_chain [OF assms(2)])
  also have "\<dots> = (a, ?M)" by (rule merge_loop_all_apart [OF apart])
  finally have "merge_loop a b (chain @ dropped) = (a, ?M)" .
  with ne assms(1) show ?thesis
    by (simp add: aa_to_genomic_from_exons_def Let_def)
qed

theorem merge_keeps_chain_drops_rest_witness:
  "sort (codon_fragments [(1, 1), (2, 2), (10, 10)] 1 1) = (1, 1) # [(2, 2)] @ [(10, 10)]
   \<and> chained 1 [(2, 2)]
   \<and> aa_to_genomic_from_exons [(1, 1), (2, 2), (10, 10)] 1 1 = Inr (1, 2)
   \<and> sort (codon_fragments [(1, 1), (2, 2), (3, 3)] 1 1) = (1, 1) # [(2, 2), (3, 3)] @ []
   \<and> chained 1 [(2, 2), (3, 3)]
   \<and> aa_to_genomic_from_exons [(1, 1), (2, 2), (3, 3)] 1 1 = Inr (1, 3)"
proof -
  have s1: "sort (codon_fragments [(1, 1), (2, 2), (10, 10)] 1 1) = (1, 1) # [(2, 2)] @ [(10, 10)]"
    by (simp add: codon_fragments_def exon_overlap_def Let_def)
  have c1: "chained 1 [(2, 2)]" by simp
  have d1: "([(10, 10)] :: (int \<times> int) list) = []
      \<or> Max (insert 1 (snd ` set ([(2, 2)] :: (int \<times> int) list))) + 1
          < fst (hd ([(10, 10)] :: (int \<times> int) list))"
    by simp
  have s2: "sort (codon_fragments [(1, 1), (2, 2), (3, 3)] 1 1) = (1, 1) # [(2, 2), (3, 3)] @ []"
    by (simp add: codon_fragments_def exon_overlap_def Let_def)
  have c2: "chained 1 [(2, 2), (3, 3)]" by simp
  have d2: "([] :: (int \<times> int) list) = []
      \<or> Max (insert 1 (snd ` set ([(2, 2), (3, 3)] :: (int \<times> int) list))) + 1
          < fst (hd ([] :: (int \<times> int) list))"
    by simp
  from merge_keeps_chain_drops_rest [OF s1 c1 d1] merge_keeps_chain_drops_rest [OF s2 c2 d2]
    s1 c1 s2 c2
  show ?thesis by simp
qed

text \<open>
  Claim C2 as stated fails: with exons \<open>(100, 149)\<close> and \<open>(200, 260)\<close> on strand +1,
  codon 17 has the CDS-relative bases 49 to 51, so two bases at the end of the first
  exon and one at the start of the second. The fragment \<open>(200, 200)\<close> is dropped and the
  interval \<open>(148, 149)\<close> is returned as a normal result.
\<close>

theorem non_contiguous_fragment_silently_dropped:
  "sort (codon_fragments [(100, 149), (200, 260)] 17 1) = [(148, 149), (200, 200)]
   \<and> aa_to_genomic_from_exons [(100, 149), (200, 260)] 17 1 = Inr (148, 149)"
  by (simp add: fragments_split_codon aa_to_genomic_from_exons_def Let_def)

text \<open>
  In the exon list \<open>[(100, 150), (200, 260)]\<close> of the scenario the first exon has 51
  bases, that is 17 whole codons, so no codon straddles the junction; CDS-relative base
  151 lies beyond the 112 bases of the CDS.
\<close>

lemma junction_scenario_of_the_spec:
  "aa_to_genomic_from_exons [(100, 150), (200, 260)] 17 1 = Inr (148, 150)
   \<and> aa_to_genomic_from_exons [(100, 150), (200, 260)] 18 1 = Inr (200, 202)
   \<and> aa_to_genomic_from_exons [(100, 150), (200, 260)] 51 1 = Inl CodonNotFoundError"
  by (simp add: aa_to_genomic_from_exons_def codon_fragments_def exon_overlap_def Let_def)

section \<open>Properties of the reference sequence extractor\<close>

lemma complement_upper_involution:
  assumes "c \<in> {CHR ''A'', CHR ''C'', CHR ''G'', CHR ''T''}"
  shows "complement (upper_char (complement (upper_char c))) = c"
proof -
  have u: "upper_char (CHR ''A'') = CHR ''A''" "upper_char (CHR ''C'') = CHR ''C''"
    "upper_char (CHR ''G'') = CHR ''G''" "upper_char (CHR ''T'') = CHR ''T''"
    by (simp_all add: upper_char_def ascii_lowercase_def ascii_uppercase_def)
  from assms consider "c = CHR ''A''" | "c = CHR ''C''" | "c = CHR ''G''" | "c = CHR ''T''"
    by auto
  then show ?thesis by cases (simp_all add: u complement_def)
qed


text \<open>
  Claim C9. For every sequence over the uppercase alphabet A, C, G, T, the reverse
  complement of the reverse complement is the sequence itself.
\<close>

theorem revcom_revcom:
  assumes "set s \<subseteq> {CHR ''A'', CHR ''C'', CHR ''G'', CHR ''T''}"
  shows "revcom (revcom s) = s"
proof -
  have "revcom (revcom s) = map (\<lambda>c. complement (upper_char (complement (upper_char c)))) s"
    by (simp add: revcom_def upper_def rev_map comp_def)
  also have "\<dots> = s"
    using assms by (intro map_idI complement_upper_involution) auto
  finally show ?thesis .
qed

theorem revcom_revcom_witness:
  "set ''GATTACA'' \<subseteq> {CHR ''A'', CHR ''C'', CHR ''G'', CHR ''T''}
   \<and> revcom ''GATTACA'' = ''TGTAATC''
   \<and> revcom (revcom ''GATTACA'') = ''GATTACA''"
proof -
  have h: "set ''GATTACA'' \<subseteq> {CHR ''A'', CHR ''C'', CHR ''G'', CHR ''T''}" by simp
  have e: "revcom ''GATTACA'' = ''TGTAATC''"
    by (simp add: revcom_def upper_def upper_char_def complement_def ascii_lowercase_def ascii_uppercase_def)
  from revcom_revcom [OF h] h e show ?thesis by simp
qed




















section \<open>Properties of the gene model locator\<close>

text \<open>
  Examples of \<open>py_int\<close>: whitespace around the digits, a sign and grouping underscores
  are accepted; a separator character 0x1C, which \<^verbatim>\<open>str.strip()\<close> would remove, a
  doubled underscore and an empty string are rejected.
\<close>

lemma py_int_examples:
  "py_int ('' '' @ [CHR 0x09] @ ''12'' @ [CHR 0x0A]) = Some 12"
  "py_int ''-1_000'' = Some (- 1000)"
  "py_int ''007'' = Some 7"
  "py_int (CHR 0x1C # ''100'') = None"
  "py_int (''100'' @ [CHR 0x1F]) = None"
  "py_int ''1__0'' = None"
  "py_int ''+ 1'' = None"
  "py_int [] = None"
  by code_simp+

lemma py_int_digit_limit:
  assumes "max_str_digits < length (filter is_digit (int_strip s))"
  shows "py_int s = None"
proof -
  let ?t = "int_strip s"
  have "length (filter is_digit (tl ?t)) = length (filter is_digit ?t)"
    if "startswith ?t ''-'' \<or> startswith ?t ''+''"
  proof (cases ?t)
    case Nil
    with that show ?thesis by simp
  next
    case (Cons c cs)
    with that have "c = CHR ''-'' \<or> c = CHR ''+''" by auto
    then have "\<not> is_digit c" by (auto simp add: is_digit_def)
    with Cons show ?thesis by simp
  qed
  with assms show ?thesis by (simp add: py_int_def Let_def)
qed















text \<open>
  Claim C8, as amended. When the exons of a transcript have pairwise distinct starts,
  the exon list produced for strand -1 is the reverse of the list produced for strand
  +1.
\<close>

theorem transcript_order_reverse:
  assumes "distinct (map fst exons)"
  shows "transcript_order (- 1) exons = rev (transcript_order 1 exons)"
proof -
  have "mset (rev exons) = mset (sort_key fst exons)" by simp
  moreover have "inj_on fst (set (rev exons))" using assms by (simp add: distinct_map)
  moreover have "sorted (map fst (sort_key fst exons))" by simp
  ultimately have "sort_key fst (rev exons) = sort_key fst exons"
    by (intro sort_key_inj_key_eq)
  then show ?thesis by (simp add: transcript_order_def)
qed

theorem transcript_order_reverse_witness:
  "distinct (map fst ([(200, 260), (100, 150), (300, 320)] :: exon list))
   \<and> transcript_order 1 [(200, 260), (100, 150), (300, 320)]
       = [(100, 150), (200, 260), (300, 320)]
   \<and> transcript_order (- 1) [(200, 260), (100, 150), (300, 320)]
       = [(300, 320), (200, 260), (100, 150)]"
proof -
  have d: "distinct (map fst ([(200, 260), (100, 150), (300, 320)] :: exon list))" by simp
  have p: "transcript_order 1 [(200, 260), (100, 150), (300, 320)]
       = [(100, 150), (200, 260), (300, 320)]"
    by (simp add: transcript_order_def)
  from transcript_order_reverse [OF d] d p show ?thesis by simp
qed

text \<open>
  Claim C8 as stated fails: two CDS lines of one transcript with the same start keep
  their file order under both strands, so the list for strand -1 is not the reverse of
  the list for strand +1.
\<close>

theorem tied_starts_keep_file_order:
  "find_cds_for_gene tied_starts_plus ''T1''
     = Inr (Found ''chr1'' 1 [(100, 200), (100, 150)] [''Parent=T1''])
   \<and> find_cds_for_gene tied_starts_minus ''T1''
     = Inr (Found ''chr1'' (- 1) [(100, 200), (100, 150)] [''Parent=T1''])
   \<and> ([(100, 200), (100, 150)] :: exon list) \<noteq> rev ([(100, 200), (100, 150)] :: exon list)"
  unfolding tied_starts_plus_def tied_starts_minus_def by code_simp












end
